theory Spec2Isabelle
  imports Complex_Main "HOL-Library.Product_Lexorder" "HOL-Library.Log_Nat"
begin

section \<open>Numeric values of a pandas column\<close>

text \<open>
  A cell of a float64 column holds a binary64 number, an infinity or NaN
  (pandas' missing value). A finite cell is written as the real number it
  denotes; \<open>Num 0\<close> is the positive zero and \<open>NZero\<close> the negative one. NaN
  payloads are not distinguished.
\<close>

datatype fval = Num real | NZero | PInf | NInf | NaN

datatype py_error = KeyError | ValueError

text \<open>Sequencing of steps that may raise: the first error ends the computation.\<close>

definition then_do :: "'e + 'a \<Rightarrow> ('a \<Rightarrow> 'e + 'b) \<Rightarrow> 'e + 'b" where
  "then_do r f = (case r of Inl e \<Rightarrow> Inl e | Inr x \<Rightarrow> f x)"

definition signed_zero :: "bool \<Rightarrow> fval" where
  "signed_zero negative = (if negative then NZero else Num 0)"

definition signed_inf :: "bool \<Rightarrow> fval" where
  "signed_inf negative = (if negative then NInf else PInf)"

text \<open>Rounding a nonnegative real to an integer, ties to the even neighbour.\<close>

definition round_half_even :: "real \<Rightarrow> int" where
  "round_half_even y =
     (let f = \<lfloor>y\<rfloor>; d = y - of_int f
      in if d < 1 / 2 then f else if 1 / 2 < d then f + 1
         else if even f then f else f + 1)"

text \<open>
  The binary exponent of \<open>a > 0\<close>, that is \<open>\<lfloor>log 2 a\<rfloor>\<close>, computed from the bit length
  of the integer part of \<open>a\<close> or of its reciprocal.
\<close>

definition binary_exponent :: "real \<Rightarrow> int" where
  "binary_exponent a =
     (if 1 \<le> a then bitlen \<lfloor>a\<rfloor> - 1 else - bitlen (\<lceil>1 / a\<rceil> - 1))"

text \<open>
  The spacing of binary64 numbers at magnitude \<open>a > 0\<close>: 52 fraction bits below
  the binary exponent of \<open>a\<close>, and the fixed spacing \<open>2^-1074\<close> of the subnormal
  numbers below \<open>2^-1022\<close>.
\<close>

definition quantum :: "real \<Rightarrow> real" where
  "quantum a = power_int 2 (max (binary_exponent a) (- 1022) - 52)"

text \<open>
  The binary64 result for an exact nonzero value \<open>x\<close>: round to nearest, ties to
  even; a rounded magnitude of \<open>2^1024\<close> or more overflows to the infinity of the
  sign of \<open>x\<close>, and a magnitude that rounds to nothing underflows to the zero of
  that sign.
\<close>

definition round64 :: "real \<Rightarrow> fval" where
  "round64 x =
     (let a = \<bar>x\<bar>;
          r = of_int (round_half_even (a / quantum a)) * quantum a
      in if 2 ^ 1024 \<le> r then signed_inf (x < 0)
         else if r = 0 then signed_zero (x < 0)
         else Num (if x < 0 then - r else r))"

fun sign_bit :: "fval \<Rightarrow> bool" where
  "sign_bit (Num a) = (a < 0)"
| "sign_bit NZero = True"
| "sign_bit PInf = False"
| "sign_bit NInf = True"
| "sign_bit NaN = False"

fun is_inf :: "fval \<Rightarrow> bool" where
  "is_inf PInf = True"
| "is_inf NInf = True"
| "is_inf _ = False"

fun is_zero :: "fval \<Rightarrow> bool" where
  "is_zero (Num a) = (a = 0)"
| "is_zero NZero = True"
| "is_zero _ = False"

fun real_of :: "fval \<Rightarrow> real" where
  "real_of (Num a) = a"
| "real_of _ = 0"

text \<open>
  \<open>x * y\<close> on float64: NaN propagates, infinity times zero is NaN, the sign of
  an infinite or zero result is the exclusive or of the operands' signs, and a
  finite nonzero product is rounded.
\<close>

definition fmul :: "fval \<Rightarrow> fval \<Rightarrow> fval" where
  "fmul x y =
     (let negative = (sign_bit x \<noteq> sign_bit y)
      in if x = NaN \<or> y = NaN then NaN
         else if is_inf x \<or> is_inf y
              then (if is_zero x \<or> is_zero y then NaN else signed_inf negative)
         else if is_zero x \<or> is_zero y then signed_zero negative
         else round64 (real_of x * real_of y))"

text \<open>
  \<open>x / y\<close> on float64 as numpy evaluates it (a warning at most, no exception):
  infinity over infinity and zero over zero are NaN, a nonzero number over zero
  is an infinity, a finite number over infinity is a zero, and a finite nonzero
  quotient is rounded.
\<close>

definition fdiv :: "fval \<Rightarrow> fval \<Rightarrow> fval" where
  "fdiv x y =
     (let negative = (sign_bit x \<noteq> sign_bit y)
      in if x = NaN \<or> y = NaN then NaN
         else if is_inf x then (if is_inf y then NaN else signed_inf negative)
         else if is_inf y then signed_zero negative
         else if is_zero y then (if is_zero x then NaN else signed_inf negative)
         else if is_zero x then signed_zero negative
         else round64 (real_of x / real_of y))"

section \<open>Series and frames\<close>

text \<open>
  A date label such as \<open>'2005-01-01'\<close> is the triple (year, month, day); the
  lexicographic order on triples is the chronological order. A Series is its
  index with one value per label; a DataFrame is one index shared by its named
  columns.
\<close>

type_synonym date = "nat \<times> nat \<times> nat"

type_synonym series = "(date \<times> fval) list"

record frame =
  index :: "date list"
  columns :: "string \<Rightarrow> fval list option"

text \<open>\<open>df[name]\<close>: the column as a Series; KeyError for a missing column.\<close>

definition getitem :: "frame \<Rightarrow> string \<Rightarrow> py_error + series" where
  "getitem df name =
     (case columns df name of
        None \<Rightarrow> Inl KeyError
      | Some vs \<Rightarrow> Inr (zip (index df) vs))"

text \<open>
  \<open>df[name] = s\<close> for a Series \<open>s\<close> carrying the frame's own index: the column
  is created or replaced by the values of \<open>s\<close>.
\<close>

definition setitem :: "frame \<Rightarrow> string \<Rightarrow> series \<Rightarrow> frame" where
  "setitem df name s = df\<lparr>columns := (columns df)(name \<mapsto> map snd s)\<rparr>"

text \<open>\<open>s[label]\<close> for one date label: the value there, KeyError if absent.\<close>

fun at_label :: "series \<Rightarrow> date \<Rightarrow> py_error + fval" where
  "at_label [] d = Inl KeyError"
| "at_label ((t, v) # s) d = (if t = d then Inr v else at_label s d)"

text \<open>Scalar--Series arithmetic broadcasts the scalar over the values.\<close>

definition scalar_mul :: "fval \<Rightarrow> series \<Rightarrow> series" where
  "scalar_mul c s = map (\<lambda>(t, v). (t, fmul c v)) s"

definition div_scalar :: "series \<Rightarrow> fval \<Rightarrow> series" where
  "div_scalar s c = map (\<lambda>(t, v). (t, fdiv v c)) s"

text \<open>
  \<open>s[label:]\<close> on an increasing DatetimeIndex: the rows from the first
  position whose label is not before \<open>label\<close>.
\<close>

definition slice_from :: "series \<Rightarrow> date \<Rightarrow> series" where
  "slice_from s d = dropWhile (\<lambda>(t, v). t < d) s"

text \<open>
  \<open>s[label:] = other\<close>: the values of \<open>other\<close> are written by position over
  the sliced rows; ValueError when the lengths differ.
\<close>

definition set_slice_from :: "series \<Rightarrow> date \<Rightarrow> series \<Rightarrow> py_error + series" where
  "set_slice_from s d other =
     (let keep = takeWhile (\<lambda>(t, v). t < d) s;
          tgt = dropWhile (\<lambda>(t, v). t < d) s
      in if length other = length tgt
         then Inr (keep @ zip (map fst tgt) (map snd other))
         else Inl ValueError)"

section \<open>The vacancy splice\<close>

text \<open>
  The Beveridge-curve cell:
  \<^verbatim>\<open>df['Vacancies'] = df['JTSJOL']['2014-01-01'] * df['HWI'] / df['HWI']['2014-01-01']\<close>
  \<^verbatim>\<open>df['Vacancies']['2005-01-01':] = df['JTSJOL']['2005-01-01':]\<close>
  The right-hand side of the second statement is evaluated first. The
  statement then assigns through the Series that \<open>df['Vacancies']\<close> returns,
  which (in the pandas the notebook is written for) shares its data with the
  frame, so the frame's column is updated.
\<close>

definition vacancies_scaled :: "frame \<Rightarrow> py_error + frame" where
  "vacancies_scaled df =
     then_do (getitem df ''JTSJOL'') (\<lambda>jts.
     then_do (at_label jts (2014, 1, 1)) (\<lambda>j14.
     then_do (getitem df ''HWI'') (\<lambda>hwi.
     then_do (getitem df ''HWI'') (\<lambda>hwi'.
     then_do (at_label hwi' (2014, 1, 1)) (\<lambda>h14.
       Inr (setitem df ''Vacancies'' (div_scalar (scalar_mul j14 hwi) h14)))))))"

definition vacancies_overwrite :: "frame \<Rightarrow> py_error + frame" where
  "vacancies_overwrite df =
     then_do (getitem df ''JTSJOL'') (\<lambda>jts.
     then_do (getitem df ''Vacancies'') (\<lambda>vac.
     then_do (set_slice_from vac (2005, 1, 1) (slice_from jts (2005, 1, 1))) (\<lambda>vac'.
       Inr (setitem df ''Vacancies'' vac'))))"

definition splice :: "frame \<Rightarrow> py_error + frame" where
  "splice df = then_do (vacancies_scaled df) vacancies_overwrite"

text \<open>
  A frame as the join produces it: an increasing index without duplicates, and
  the two source columns present with one value per label.
\<close>

definition vacancy_frame :: "frame \<Rightarrow> bool" where
  "vacancy_frame df \<longleftrightarrow>
     sorted_wrt (<) (index df) \<and>
     (\<exists>js hs. columns df ''JTSJOL'' = Some js \<and> columns df ''HWI'' = Some hs \<and>
        length js = length (index df) \<and> length hs = length (index df))"

text \<open>The values of \<open>df['Vacancies']\<close> after the cell has run.\<close>

definition vacancies :: "frame \<Rightarrow> py_error + fval list" where
  "vacancies df =
     then_do (splice df) (\<lambda>df'.
       case columns df' ''Vacancies'' of None \<Rightarrow> Inl KeyError | Some vs \<Rightarrow> Inr vs)"

text \<open>
  A four-row frame on which the splice is evaluated: one month before 2005,
  and the reference month 2014-01 neither first nor last.
\<close>

definition splice_example :: frame where
  "splice_example =
     \<lparr>index = [(2004, 12, 1), (2005, 1, 1), (2014, 1, 1), (2014, 2, 1)],
      columns = (\<lambda>_. None)(''JTSJOL'' \<mapsto> [NaN, Num 4, Num 2, Num 7],
                              ''HWI'' \<mapsto> [Num 3, Num 6, Num 5, Num 8])\<rparr>"

section \<open>Impulse responses of a solved model\<close>

text \<open>
  Modelled from the spec: the simulation/IRF engine behind
  \<^verbatim>\<open>rbc.stoch_simul(irf=20)\<close> belongs to the \<open>Dynare\<close> module, which is not among
  the sources (the notebooks only import and call it). The definitions below
  follow the specification of \<open>impulse_response(policy, shock_index, horizon)\<close>:
  the shock vector is a one-unit impulse in \<open>shock_index\<close> at \<open>t = 0\<close> and zero
  thereafter, and \<open>y_t = P y_{t-1} + Q eps_t\<close> is propagated for \<open>horizon\<close> steps
  from a zero initial state, every call starting again from \<open>t = 0\<close>. Matrices
  are lists of rows over the reals.
\<close>

type_synonym vec = "real list"

type_synonym mat = "real list list"

record policy =
  P :: mat
  Q :: mat
  variable_order :: "string list"

definition dot :: "vec \<Rightarrow> vec \<Rightarrow> real" where
  "dot u v = sum_list (map (\<lambda>(a, b). a * b) (zip u v))"

definition mat_vec :: "mat \<Rightarrow> vec \<Rightarrow> vec" where
  "mat_vec M v = map (\<lambda>row. dot row v) M"

definition vec_add :: "vec \<Rightarrow> vec \<Rightarrow> vec" where
  "vec_add u v = map (\<lambda>(a, b). a + b) (zip u v)"

text \<open>The number of shocks is the number of columns of \<open>Q\<close>.\<close>

definition n_shocks :: "policy \<Rightarrow> nat" where
  "n_shocks pol = (case Q pol of [] \<Rightarrow> 0 | row # _ \<Rightarrow> length row)"

text \<open>The shock vector at time \<open>t\<close>: the unit impulse at \<open>t = 0\<close>, zero later.\<close>

definition impulse :: "nat \<Rightarrow> nat \<Rightarrow> nat \<Rightarrow> vec" where
  "impulse m shock_index t =
     map (\<lambda>i. if t = 0 \<and> i = shock_index then 1 else 0) [0..<m]"

text \<open>One step of the policy function, \<open>y_t = P y_{t-1} + Q eps_t\<close>.\<close>

definition transition :: "policy \<Rightarrow> vec \<Rightarrow> vec \<Rightarrow> vec" where
  "transition pol y eps = vec_add (mat_vec (P pol) y) (mat_vec (Q pol) eps)"

text \<open>The loop over time: \<open>k\<close> further steps from the state \<open>y\<close> reached before \<open>t\<close>.\<close>

fun propagate :: "policy \<Rightarrow> nat \<Rightarrow> vec \<Rightarrow> nat \<Rightarrow> nat \<Rightarrow> vec list" where
  "propagate pol shock_index y t 0 = []"
| "propagate pol shock_index y t (Suc k) =
     (let y' = transition pol y (impulse (n_shocks pol) shock_index t)
      in y' # propagate pol shock_index y' (Suc t) k)"

definition impulse_response :: "policy \<Rightarrow> nat \<Rightarrow> nat \<Rightarrow> vec list" where
  "impulse_response pol shock_index horizon =
     propagate pol shock_index (replicate (length (P pol)) 0) 0 horizon"

text \<open>
  The policy function of the one-equation model \<open>x_t = rho x_{t-1} + eps_t\<close>,
  which is its own reduced form: \<open>P = [rho]\<close>, \<open>Q = [1]\<close>.
\<close>

definition ar1 :: "real \<Rightarrow> policy" where
  "ar1 rho = \<lparr>P = [[rho]], Q = [[1]], variable_order = [''x'']\<rparr>"

section \<open>Properties of the vacancy splice\<close>

lemma floor_log2_between:
  assumes "power_int 2 e \<le> a" and "a < power_int 2 (e + 1)"
  shows "\<lfloor>log 2 a\<rfloor> = e"
proof -
  have "(0::real) < power_int 2 e" by simp
  with assms(1) have pos: "0 < a" by linarith
  have pw: "(2::real) powr (of_int k) = power_int 2 k" for k
    by (simp add: powr_real_of_int')
  have "2 powr (of_int e) \<le> a"
    using assms(1) by (simp only: pw)
  moreover have "a < 2 powr (of_int (e + 1))"
    using assms(2) by (simp only: pw)
  ultimately show ?thesis
    using pos floor_log_eq_powr_iff [of a 2 e] by simp
qed

lemma binary_exponent_log:
  assumes pos: "0 < a"
  shows "binary_exponent a = \<lfloor>log 2 a\<rfloor>"
proof (cases "1 \<le> a")
  case True
  define m where "m = \<lfloor>a\<rfloor>"
  define b where "b = bitlen m"
  have m1: "1 \<le> m" using True by (simp add: m_def le_floor_iff)
  then have b1: "1 \<le> b" by (simp add: b_def bitlen_alt_def)
  from bitlen_bounds [of m] m1 have lo: "2 ^ nat (b - 1) \<le> m" and hi: "m < 2 ^ nat b"
    by (simp_all add: b_def)
  have "(2::real) ^ nat (b - 1) \<le> real_of_int m" using lo by simp
  moreover have "real_of_int m \<le> a" by (simp add: m_def)
  ultimately have "(2::real) ^ nat (b - 1) \<le> a" by linarith
  then have l: "power_int 2 (b - 1) \<le> a"
    using b1 by (simp add: power_int_def)
  from hi have "m + 1 \<le> 2 ^ nat b" by simp
  then have "real_of_int (m + 1) \<le> (2::real) ^ nat b"
    by (metis of_int_le_iff of_int_numeral of_int_power)
  moreover have "a < real_of_int (m + 1)" by (simp add: m_def)
  ultimately have "a < (2::real) ^ nat b" by linarith
  then have h: "a < power_int 2 (b - 1 + 1)"
    using b1 by (simp add: power_int_def)
  from floor_log2_between [OF l h] show ?thesis
    using True by (simp add: binary_exponent_def m_def b_def)
next
  case False
  define y where "y = 1 / a"
  define m where "m = \<lceil>y\<rceil> - 1"
  define b where "b = bitlen m"
  have y1: "1 < y" using False pos by (simp add: y_def)
  then have m1: "1 \<le> m" by (simp add: m_def less_ceiling_iff)
  then have b1: "1 \<le> b" by (simp add: b_def bitlen_alt_def)
  from bitlen_bounds [of m] m1 have lo: "2 ^ nat (b - 1) \<le> m" and hi: "m < 2 ^ nat b"
    by (simp_all add: b_def)
  have my: "real_of_int m < y" unfolding m_def by linarith
  have ym: "y \<le> real_of_int (m + 1)" unfolding m_def by simp
  have "(2::real) ^ nat (b - 1) \<le> real_of_int m" using lo by simp
  with my have ly: "2 ^ nat (b - 1) < y" by linarith
  from hi have "m + 1 \<le> 2 ^ nat b" by simp
  then have "real_of_int (m + 1) \<le> (2::real) ^ nat b"
    by (metis of_int_le_iff of_int_numeral of_int_power)
  with ym have hy: "y \<le> 2 ^ nat b" by linarith
  have a: "a = 1 / y" using pos by (simp add: y_def)
  have ypos: "0 < y" using y1 by simp
  have "1 / 2 ^ nat b \<le> 1 / y"
    using hy ypos by (simp add: frac_le)
  then have l: "power_int 2 (- b) \<le> a"
    using b1 by (simp add: a power_int_def divide_simps)
  have "(0::real) < 2 ^ nat (b - 1)" by simp
  with ly have "1 / y < 1 / 2 ^ nat (b - 1)"
    by (simp add: frac_less2)
  moreover have "- b + 1 = - (b - 1)" by simp
  then have "power_int (2::real) (- b + 1) = 1 / power_int 2 (b - 1)"
    by (simp only: power_int_minus_divide)
  then have "power_int (2::real) (- b + 1) = 1 / 2 ^ nat (b - 1)"
    using b1 by (simp add: power_int_def)
  ultimately have h: "a < power_int 2 (- b + 1)"
    by (simp only: a)
  from floor_log2_between [OF l h] show ?thesis
    using False by (simp add: binary_exponent_def y_def m_def b_def)
qed

lemma quantum_between:
  assumes "power_int 2 e \<le> a" and "a < power_int 2 (e + 1)"
  shows "quantum a = power_int 2 (max e (- 1022) - 52)"
proof -
  have "(0::real) < power_int 2 e" by simp
  with assms(1) have "0 < a" by linarith
  then have "binary_exponent a = \<lfloor>log 2 a\<rfloor>" by (rule binary_exponent_log)
  also have "\<dots> = e" using assms by (rule floor_log2_between)
  finally show ?thesis by (simp add: quantum_def)
qed

lemma round64_normal:
  assumes lo: "power_int 2 e \<le> x" and hi: "x < power_int 2 (e + 1)" and e: "- 1022 \<le> e"
    and m: "round_half_even (x / power_int 2 (e - 52)) = m"
    and r: "of_int m * power_int 2 (e - 52) = r" and rpos: "0 < r" and fin: "r < 2 ^ 1024"
  shows "round64 x = Num r"
proof -
  have "(0::real) < power_int 2 e" by simp
  with lo have pos: "0 < x" by linarith
  have q: "quantum x = power_int 2 (e - 52)"
    using quantum_between [OF lo hi] e by (simp add: max_def)
  have "round64 x = (if 2 ^ 1024 \<le> r then signed_inf (x < 0)
         else if r = 0 then signed_zero (x < 0)
         else Num (if x < 0 then - r else r))"
    using pos by (simp add: round64_def Let_def q m r)
  then show ?thesis using pos rpos fin by simp
qed

lemma mul_2_3: "fmul (Num 2) (Num 3) = Num 6"
proof -
  have "round64 (real_of (Num 2) * real_of (Num 3)) = Num 6"
    by (rule round64_normal [where e = 2 and m = 6755399441055744])
       (simp_all add: round_half_even_def power_int_minus)
  then show ?thesis by (simp add: fmul_def)
qed

lemma div_6_5: "fdiv (Num 6) (Num 5) = Num (5404319552844595 / 4503599627370496)"
proof -
  have "round64 (real_of (Num 6) / real_of (Num 5)) = Num (5404319552844595 / 4503599627370496)"
    by (rule round64_normal [where e = 0 and m = 5404319552844595])
       (simp_all add: round_half_even_def power_int_minus)
  then show ?thesis by (simp add: fdiv_def)
qed

lemma div_2_5: "fdiv (Num 2) (Num 5) = Num (3602879701896397 / 9007199254740992)"
proof -
  have "round64 (real_of (Num 2) / real_of (Num 5)) = Num (3602879701896397 / 9007199254740992)"
    by (rule round64_normal [where e = "- 2" and m = 7205759403792794])
       (simp_all add: round_half_even_def power_int_minus)
  then show ?thesis by (simp add: fdiv_def)
qed

lemma mul_3_two_fifths:
  "fmul (Num 3) (Num (3602879701896397 / 9007199254740992)) =
     Num (5404319552844596 / 4503599627370496)"
proof -
  have "round64 (real_of (Num 3) * real_of (Num (3602879701896397 / 9007199254740992))) =
     Num (5404319552844596 / 4503599627370496)"
    by (rule round64_normal [where e = 0 and m = 5404319552844596])
       (simp_all add: round_half_even_def power_int_minus)
  then show ?thesis by (simp add: fmul_def)
qed

lemma takeWhile_zip_fst:
  "length ys = length xs \<Longrightarrow>
   takeWhile (\<lambda>(t, v). pr t) (zip xs ys) = take (length (takeWhile pr xs)) (zip xs ys)"
  by (induction xs arbitrary: ys) (auto simp: length_Suc_conv)

lemma dropWhile_zip_fst:
  "length ys = length xs \<Longrightarrow>
   dropWhile (\<lambda>(t, v). pr t) (zip xs ys) = drop (length (takeWhile pr xs)) (zip xs ys)"
  by (induction xs arbitrary: ys) (auto simp: length_Suc_conv)

lemma sorted_takeWhile_less:
  "sorted_wrt (<) (xs :: 'a::linorder list) \<Longrightarrow> i < length xs \<Longrightarrow>
   i < length (takeWhile (\<lambda>t. t < d) xs) \<longleftrightarrow> xs ! i < d"
proof (induction xs arbitrary: i)
  case Nil then show ?case by simp
next
  case (Cons x xs)
  show ?case
  proof (cases i)
    case 0 then show ?thesis by simp
  next
    case (Suc j)
    with Cons.prems have j: "j < length xs" and s: "sorted_wrt (<) xs" and lt: "x < xs ! j" by auto
    show ?thesis using Cons.IH[OF s j] lt Suc by auto
  qed
qed


lemma map_zip_snd: "map (\<lambda>(t, v). (t, f v)) (zip xs ys) = zip xs (map f ys)"
  by (induction xs arbitrary: ys) (auto split: list.splits simp: zip_Cons1)

lemma set_slice_zip:
  assumes lv: "length vs = length xs" and lj: "length js = length xs"
  shows "set_slice_from (zip xs vs) d (slice_from (zip xs js) d) =
     Inr (zip xs (take (length (takeWhile (\<lambda>t. t < d) xs)) vs @
                  drop (length (takeWhile (\<lambda>t. t < d) xs)) js))"
proof -
  define n where "n = length (takeWhile (\<lambda>t. t < d) xs)"
  have tv: "takeWhile (\<lambda>(t, v). t < d) (zip xs vs) = take n (zip xs vs)"
    unfolding n_def using lv by (rule takeWhile_zip_fst)
  have dv: "dropWhile (\<lambda>(t, v). t < d) (zip xs vs) = drop n (zip xs vs)"
    unfolding n_def using lv by (rule dropWhile_zip_fst)
  have dj: "dropWhile (\<lambda>(t, v). t < d) (zip xs js) = drop n (zip xs js)"
    unfolding n_def using lj by (rule dropWhile_zip_fst)
  have len: "length (drop n (zip xs js)) = length (drop n (zip xs vs))"
    using lv lj by simp
  have f: "map fst (drop n (zip xs vs)) = drop n xs"
    using lv by (simp add: drop_map [symmetric])
  have g: "map snd (drop n (zip xs js)) = drop n js"
    using lj by (simp add: drop_map [symmetric])
  have "zip (take n xs @ drop n xs) (take n vs @ drop n js) =
        zip (take n xs) (take n vs) @ zip (drop n xs) (drop n js)"
    by (rule zip_append) (simp add: lv)
  then have "take n (zip xs vs) @ zip (drop n xs) (drop n js) =
        zip (take n xs @ drop n xs) (take n vs @ drop n js)"
    by (simp add: take_zip)
  then have "take n (zip xs vs) @ zip (drop n xs) (drop n js) = zip xs (take n vs @ drop n js)"
    by simp
  then show ?thesis
    unfolding set_slice_from_def slice_from_def Let_def tv dv dj n_def [symmetric]
    using len f g by simp
qed

lemma vacancies_scaled_ok:
  assumes "columns df ''JTSJOL'' = Some js" and "columns df ''HWI'' = Some hs"
    and "at_label (zip (index df) js) (2014, 1, 1) = Inr j14"
    and "at_label (zip (index df) hs) (2014, 1, 1) = Inr h14"
  shows "vacancies_scaled df =
     Inr (setitem df ''Vacancies'' (zip (index df) (map (\<lambda>h. fdiv (fmul j14 h) h14) hs)))"
proof -
  have "div_scalar (scalar_mul j14 (zip (index df) hs)) h14 =
        zip (index df) (map (\<lambda>h. fdiv (fmul j14 h) h14) hs)"
    unfolding scalar_mul_def div_scalar_def map_zip_snd by (simp add: o_def)
  then show ?thesis
    using assms by (simp add: vacancies_scaled_def getitem_def then_do_def)
qed

lemma vacancies_overwrite_ok:
  assumes "columns df ''JTSJOL'' = Some js" and "columns df ''Vacancies'' = Some vs"
    and "length js = length (index df)" and "length vs = length (index df)"
  shows "vacancies_overwrite df =
     Inr (setitem df ''Vacancies'' (zip (index df)
       (take (length (takeWhile (\<lambda>t. t < (2005, 1, 1)) (index df))) vs @
        drop (length (takeWhile (\<lambda>t. t < (2005, 1, 1)) (index df))) js)))"
  using assms
  by (simp add: vacancies_overwrite_def getitem_def then_do_def set_slice_zip)

lemma first_label:
  "d \<in> set xs \<Longrightarrow>
   length (takeWhile (\<lambda>t. t \<noteq> d) xs) < length xs \<and>
   xs ! length (takeWhile (\<lambda>t. t \<noteq> d) xs) = d"
  by (induction xs) auto

lemma at_label_zip:
  "d \<in> set xs \<Longrightarrow> length ys = length xs \<Longrightarrow>
   at_label (zip xs ys) d = Inr (ys ! length (takeWhile (\<lambda>t. t \<noteq> d) xs))"
proof (induction xs arbitrary: ys)
  case Nil
  then show ?case by simp
next
  case (Cons x xs)
  then obtain y ys' where ys: "ys = y # ys'" "length ys' = length xs"
    by (cases ys) auto
  show ?case
  proof (cases "x = d")
    case True
    then show ?thesis using ys by simp
  next
    case False
    with Cons.prems have "d \<in> set xs" by simp
    from Cons.IH [OF this ys(2)] show ?thesis using ys False by simp
  qed
qed

text \<open>
  Claim C10, as amended. On a frame with an increasing index that contains
  2014-01-01, the splice succeeds and leaves the index and the source columns
  as they were. With \<open>k\<close> the row of 2014-01-01, the new \<open>Vacancies\<close> column
  equals the \<open>JTSJOL\<close> column at every date from 2005-01-01 onward, and at
  every earlier date it is the float64 product of \<open>JTSJOL\<close> at row \<open>k\<close> and the
  row's \<open>HWI\<close>, divided in float64 by \<open>HWI\<close> at row \<open>k\<close>.
\<close>

theorem splice_vacancies:
  assumes wf: "vacancy_frame df" and d14: "(2014, 1, 1) \<in> set (index df)"
  shows "\<exists>df' js hs vs k.
     splice df = Inr df' \<and> index df' = index df \<and>
     columns df ''JTSJOL'' = Some js \<and> columns df ''HWI'' = Some hs \<and>
     columns df' ''JTSJOL'' = Some js \<and> columns df' ''HWI'' = Some hs \<and>
     columns df' ''Vacancies'' = Some vs \<and> length vs = length (index df) \<and>
     k < length (index df) \<and> index df ! k = (2014, 1, 1) \<and>
     (\<forall>i < length (index df).
        vs ! i = (if (2005, 1, 1) \<le> index df ! i then js ! i
                  else fdiv (fmul (js ! k) (hs ! i)) (hs ! k)))"
proof -
  from wf obtain js hs where srt: "sorted_wrt (<) (index df)"
    and cj: "columns df ''JTSJOL'' = Some js" and ch: "columns df ''HWI'' = Some hs"
    and lj: "length js = length (index df)" and lh: "length hs = length (index df)"
    unfolding vacancy_frame_def by blast
  define k where "k = length (takeWhile (\<lambda>t. t \<noteq> (2014, 1, 1)) (index df))"
  have kl: "k < length (index df)" and kd: "index df ! k = (2014, 1, 1)"
    unfolding k_def using first_label [OF d14] by blast+
  have aj: "at_label (zip (index df) js) (2014, 1, 1) = Inr (js ! k)"
    unfolding k_def by (rule at_label_zip [OF d14 lj])
  have ah: "at_label (zip (index df) hs) (2014, 1, 1) = Inr (hs ! k)"
    unfolding k_def by (rule at_label_zip [OF d14 lh])
  define vs1 where "vs1 = map (\<lambda>h. fdiv (fmul (js ! k) h) (hs ! k)) hs"
  define df1 where "df1 = setitem df ''Vacancies'' (zip (index df) vs1)"
  define n where "n = length (takeWhile (\<lambda>t. t < (2005, 1, 1)) (index df))"
  define vs where "vs = take n vs1 @ drop n js"
  define df' where "df' = setitem df1 ''Vacancies'' (zip (index df1) vs)"
  have l1: "length vs1 = length (index df)" by (simp add: vs1_def lh)
  have s1: "vacancies_scaled df = Inr df1"
    unfolding df1_def vs1_def by (rule vacancies_scaled_ok [OF cj ch aj ah])
  have i1: "index df1 = index df" by (simp add: df1_def setitem_def)
  have c1j: "columns df1 ''JTSJOL'' = Some js" by (simp add: df1_def setitem_def cj)
  have c1h: "columns df1 ''HWI'' = Some hs" by (simp add: df1_def setitem_def ch)
  have c1v: "columns df1 ''Vacancies'' = Some vs1" by (simp add: df1_def setitem_def l1)
  have s2: "vacancies_overwrite df1 = Inr df'"
    unfolding df'_def vs_def n_def i1 [symmetric]
    by (rule vacancies_overwrite_ok [OF c1j c1v]) (simp_all add: i1 lj l1)
  have nle: "n \<le> length (index df)"
    unfolding n_def by (rule order_trans [OF length_takeWhile_le]) simp
  have lv: "length vs = length (index df)"
    using nle by (simp add: vs_def l1 lj)
  have sp: "splice df = Inr df'" by (simp add: splice_def s1 s2 then_do_def)
  have i2: "index df' = index df" by (simp add: df'_def setitem_def i1)
  have c2j: "columns df' ''JTSJOL'' = Some js" by (simp add: df'_def setitem_def c1j)
  have c2h: "columns df' ''HWI'' = Some hs" by (simp add: df'_def setitem_def c1h)
  have c2v: "columns df' ''Vacancies'' = Some vs" by (simp add: df'_def setitem_def i1 lv)
  have rows: "vs ! i = (if (2005, 1, 1) \<le> index df ! i then js ! i
                  else fdiv (fmul (js ! k) (hs ! i)) (hs ! k))"
    if i: "i < length (index df)" for i
  proof (cases "i < n")
    case True
    then have "index df ! i < (2005, 1, 1)"
      using sorted_takeWhile_less [OF srt i, of "(2005, 1, 1)"] unfolding n_def by blast
    then have before: "\<not> (2005, 1, 1) \<le> index df ! i"
      by (simp only: not_le)
    have "vs ! i = fdiv (fmul (js ! k) (hs ! i)) (hs ! k)"
      using True i nle by (simp add: vs_def nth_append l1 vs1_def lh)
    with before show ?thesis by (simp only: if_False)
  next
    case False
    then have "\<not> index df ! i < (2005, 1, 1)"
      using sorted_takeWhile_less [OF srt i, of "(2005, 1, 1)"] unfolding n_def by blast
    then have after: "(2005, 1, 1) \<le> index df ! i"
      by (simp only: not_less)
    have "vs ! i = js ! i"
      using False i nle by (simp add: vs_def nth_append l1 lj min_def)
    with after show ?thesis by (simp only: if_True)
  qed
  show ?thesis
    using sp i2 cj ch c2j c2h c2v lv kl kd rows by blast
qed

theorem splice_vacancies_witness:
  "vacancy_frame splice_example \<and> (2014, 1, 1) \<in> set (index splice_example) \<and>
   (\<exists>df'. splice splice_example = Inr df' \<and>
      columns df' ''Vacancies'' =
        Some [Num (5404319552844595 / 4503599627370496), Num 4, Num 2, Num 7])"
proof -
  have wf: "vacancy_frame splice_example"
    by (simp add: vacancy_frame_def splice_example_def)
  have d14: "(2014, 1, 1) \<in> set (index splice_example)"
    by (simp add: splice_example_def)
  from splice_vacancies [OF wf d14] obtain df' js hs vs k where
    sp: "splice splice_example = Inr df'"
    and cj: "columns splice_example ''JTSJOL'' = Some js"
    and ch: "columns splice_example ''HWI'' = Some hs"
    and cv: "columns df' ''Vacancies'' = Some vs"
    and lv: "length vs = length (index splice_example)"
    and kl: "k < length (index splice_example)"
    and kd: "index splice_example ! k = (2014, 1, 1)"
    and rows: "\<forall>i < length (index splice_example).
        vs ! i = (if (2005, 1, 1) \<le> index splice_example ! i then js ! i
                  else fdiv (fmul (js ! k) (hs ! i)) (hs ! k))"
    by blast
  have js: "js = [NaN, Num 4, Num 2, Num 7]" using cj by (simp add: splice_example_def)
  have hs: "hs = [Num 3, Num 6, Num 5, Num 8]" using ch by (simp add: splice_example_def)
  have "k < 4" using kl by (simp add: splice_example_def)
  then have "k = 0 \<or> k = 1 \<or> k = 2 \<or> k = 3" by arith
  then have k2: "k = 2" using kd by (auto simp: splice_example_def)
  have l4: "length vs = 4" using lv by (simp add: splice_example_def)
  have "vs ! 0 = fdiv (fmul (Num 2) (Num 3)) (Num 5)"
    using rows [rule_format, of 0] by (simp add: splice_example_def js hs k2)
  then have v0: "vs ! 0 = Num (5404319552844595 / 4503599627370496)"
    by (simp only: mul_2_3 div_6_5)
  have v1: "vs ! 1 = Num 4" using rows [rule_format, of 1]
    by (simp add: splice_example_def js hs k2)
  have v2: "vs ! 2 = Num 2" using rows [rule_format, of 2]
    by (simp add: splice_example_def js hs k2)
  have v3: "vs ! 3 = Num 7" using rows [rule_format, of 3]
    by (simp add: splice_example_def js hs k2)
  have "vs = [Num (5404319552844595 / 4503599627370496), Num 4, Num 2, Num 7]"
  proof (rule nth_equalityI)
    show "length vs = length [Num (5404319552844595 / 4503599627370496), Num 4, Num 2, Num 7]"
      using l4 by simp
  next
    fix i assume "i < length vs"
    then have "i = 0 \<or> i = 1 \<or> i = 2 \<or> i = 3" using l4 by arith
    then show "vs ! i = [Num (5404319552844595 / 4503599627370496), Num 4, Num 2, Num 7] ! i"
      using v0 v1 v2 v3 by auto
  qed
  with sp cv wf d14 show ?thesis by blast
qed

text \<open>
  The claim as first stated has \<open>HWI\<close> multiplied by the constant factor
  JTSJOL(2014-01-01) / HWI(2014-01-01). With \<open>JTSJOL = 2\<close> and \<open>HWI = 5\<close> in
  2014-01 and \<open>HWI = 3\<close> in 2004-12, the cell stores \<open>(2 * 3) / 5\<close>, the binary64
  number nearest to 1.2, while \<open>3 * (2 / 5)\<close> is the next binary64 number above
  it.
\<close>

theorem splice_rounding_counterexample:
  "vacancy_frame splice_example \<and> (2014, 1, 1) \<in> set (index splice_example) \<and>
   vacancies splice_example =
     Inr [Num (5404319552844595 / 4503599627370496), Num 4, Num 2, Num 7] \<and>
   fmul (Num 3) (fdiv (Num 2) (Num 5)) = Num (5404319552844596 / 4503599627370496) \<and>
   vacancies splice_example \<noteq>
     Inr [fmul (Num 3) (fdiv (Num 2) (Num 5)), Num 4, Num 2, Num 7]"
proof -
  have wf: "vacancy_frame splice_example"
    by (simp add: vacancy_frame_def splice_example_def)
  have d14: "(2014, 1, 1) \<in> set (index splice_example)"
    by (simp add: splice_example_def)
  have "vacancies splice_example =
     Inr [fdiv (fmul (Num 2) (Num 3)) (Num 5), Num 4, Num 2, Num 7]"
    by (simp add: vacancies_def splice_def vacancies_scaled_def vacancies_overwrite_def
        splice_example_def getitem_def setitem_def then_do_def scalar_mul_def div_scalar_def
        slice_from_def set_slice_from_def)
  then have code: "vacancies splice_example =
     Inr [Num (5404319552844595 / 4503599627370496), Num 4, Num 2, Num 7]"
    by (simp only: mul_2_3 div_6_5)
  have claimed: "fmul (Num 3) (fdiv (Num 2) (Num 5)) =
     Num (5404319552844596 / 4503599627370496)"
    by (simp only: div_2_5 mul_3_two_fifths)
  have "vacancies splice_example \<noteq>
     Inr [fmul (Num 3) (fdiv (Num 2) (Num 5)), Num 4, Num 2, Num 7]"
    unfolding code claimed by simp
  with wf d14 code claimed show ?thesis by blast
qed

section \<open>Properties of the impulse response\<close>

lemma length_propagate: "length (propagate pol j y t k) = k"
  by (induction k arbitrary: y t) (simp_all add: Let_def)

lemma propagate_nth:
  "i < k \<Longrightarrow> propagate pol j y t k ! i =
     transition pol (if i = 0 then y else propagate pol j y t k ! (i - 1))
       (impulse (n_shocks pol) j (t + i))"
proof (induction k arbitrary: y t i)
  case 0
  then show ?case by simp
next
  case (Suc k)
  show ?case
  proof (cases i)
    case 0
    then show ?thesis by (simp add: Let_def)
  next
    case (Suc i')
    with Suc.prems have "i' < k" by simp
    from Suc.IH [OF this] show ?thesis
      using Suc by (cases i') (simp_all add: Let_def)
  qed
qed

lemma impulse_nth:
  "i < m \<Longrightarrow> impulse m j t ! i = (if t = 0 \<and> i = j then 1 else 0)"
  by (simp add: impulse_def)

lemma ar1_transition:
  "transition (ar1 rho) [c] (impulse (n_shocks (ar1 rho)) 0 t) =
     [rho * c + (if t = 0 then 1 else 0)]"
  by (simp add: transition_def ar1_def n_shocks_def impulse_def mat_vec_def vec_add_def dot_def)

lemma ar1_propagate:
  "i < k \<Longrightarrow> propagate (ar1 rho) 0 [c] (Suc t) k ! i = [rho ^ (Suc i) * c]"
proof (induction k arbitrary: c t i)
  case 0
  then show ?case by simp
next
  case (Suc k)
  show ?case
  proof (cases i)
    case 0
    then show ?thesis by (simp add: Let_def ar1_transition)
  next
    case (Suc i')
    with Suc.prems have "i' < k" by simp
    from Suc.IH [OF this, of "rho * c" "Suc t"] show ?thesis
      using Suc by (simp add: Let_def ar1_transition mult.assoc power_commutes)
  qed
qed

lemma ar1_impulse_response:
  assumes h: "h < horizon"
  shows "impulse_response (ar1 rho) 0 horizon ! h = [rho ^ h]"
proof (cases horizon)
  case 0
  with h show ?thesis by simp
next
  case (Suc k)
  have l: "replicate (length (P (ar1 rho))) 0 = [0]" by (simp add: ar1_def)
  show ?thesis
  proof (cases h)
    case 0
    then show ?thesis
      using Suc by (simp add: impulse_response_def l ar1_transition Let_def)
  next
    case (Suc h')
    with h \<open>horizon = Suc k\<close> have "h' < k" by simp
    from ar1_propagate [OF this, of rho 1 0] show ?thesis
      using Suc \<open>horizon = Suc k\<close> by (simp add: impulse_response_def l ar1_transition Let_def)
  qed
qed

text \<open>
  Claim C3. For every policy function, shock index and horizon, the impulse
  response has one vector per step; the shock vector is the unit impulse in the
  chosen coordinate at \<open>t = 0\<close> and zero at every later time; the vector at step
  \<open>t\<close> is \<open>P y + Q eps_t\<close>, where \<open>y\<close> is the zero state at \<open>t = 0\<close> and the
  previous vector afterwards; and for the AR(1) model with coefficient \<open>rho\<close> the
  response at horizon \<open>h\<close> to a unit shock is \<open>rho ^ h\<close>.
\<close>

theorem impulse_response_recursion:
  "length (impulse_response pol j horizon) = horizon \<and>
   (\<forall>i < n_shocks pol. impulse (n_shocks pol) j 0 ! i = (if i = j then 1 else 0)) \<and>
   (\<forall>t > 0. \<forall>i < n_shocks pol. impulse (n_shocks pol) j t ! i = 0) \<and>
   (\<forall>t < horizon. impulse_response pol j horizon ! t =
      transition pol
        (if t = 0 then replicate (length (P pol)) 0
         else impulse_response pol j horizon ! (t - 1))
        (impulse (n_shocks pol) j t)) \<and>
   (\<forall>h < horizon. impulse_response (ar1 rho) 0 horizon ! h = [rho ^ h])"
proof (intro conjI allI impI)
  show "length (impulse_response pol j horizon) = horizon"
    by (simp add: impulse_response_def length_propagate)
next
  fix i assume "i < n_shocks pol"
  then show "impulse (n_shocks pol) j 0 ! i = (if i = j then 1 else 0)"
    by (simp add: impulse_nth)
next
  fix t i :: nat assume "0 < t" and "i < n_shocks pol"
  then show "impulse (n_shocks pol) j t ! i = 0"
    by (simp add: impulse_nth)
next
  fix t assume "t < horizon"
  from propagate_nth [OF this, of pol j "replicate (length (P pol)) 0" 0]
  show "impulse_response pol j horizon ! t =
      transition pol
        (if t = 0 then replicate (length (P pol)) 0
         else impulse_response pol j horizon ! (t - 1))
        (impulse (n_shocks pol) j t)"
    by (simp add: impulse_response_def)
next
  fix h assume "h < horizon"
  then show "impulse_response (ar1 rho) 0 horizon ! h = [rho ^ h]"
    by (rule ar1_impulse_response)
qed

theorem impulse_response_recursion_witness:
  "(2::nat) < 3 \<and> length (impulse_response (ar1 (1 / 2)) 0 3) = 3 \<and>
   impulse (n_shocks (ar1 (1 / 2))) 0 0 ! 0 = 1 \<and>
   impulse (n_shocks (ar1 (1 / 2))) 0 2 ! 0 = 0 \<and>
   impulse_response (ar1 (1 / 2)) 0 3 ! 2 =
     transition (ar1 (1 / 2)) (impulse_response (ar1 (1 / 2)) 0 3 ! 1) [0] \<and>
   impulse_response (ar1 (1 / 2)) 0 3 ! 2 = [1 / 4]"
proof -
  have n: "n_shocks (ar1 (1 / 2)) = 1" by (simp add: n_shocks_def ar1_def)
  have z: "impulse (Suc 0) 0 2 = [0]" by (simp add: impulse_def)
  note th = impulse_response_recursion [of "ar1 (1 / 2)" 0 3 "1 / 2"]
  from th have len: "length (impulse_response (ar1 (1 / 2)) 0 3) = 3" by blast
  from th have "\<forall>i < n_shocks (ar1 (1 / 2)). impulse (n_shocks (ar1 (1 / 2))) 0 0 ! i
      = (if i = 0 then 1 else 0)" by blast
  then have i0: "impulse (n_shocks (ar1 (1 / 2))) 0 0 ! 0 = 1" by (simp add: n)
  from th have "\<forall>t > 0. \<forall>i < n_shocks (ar1 (1 / 2)). impulse (n_shocks (ar1 (1 / 2))) 0 t ! i = 0"
    by blast
  then have i2: "impulse (n_shocks (ar1 (1 / 2))) 0 2 ! 0 = 0" by (simp add: n)
  from th have "\<forall>t < 3. impulse_response (ar1 (1 / 2)) 0 3 ! t =
      transition (ar1 (1 / 2))
        (if t = 0 then replicate (length (P (ar1 (1 / 2)))) 0
         else impulse_response (ar1 (1 / 2)) 0 3 ! (t - 1))
        (impulse (n_shocks (ar1 (1 / 2))) 0 t)" by blast
  from this [rule_format, of 2]
  have st: "impulse_response (ar1 (1 / 2)) 0 3 ! 2 =
     transition (ar1 (1 / 2)) (impulse_response (ar1 (1 / 2)) 0 3 ! 1) [0]"
    by (simp add: n z)
  from th have "\<forall>h < 3. impulse_response (ar1 (1 / 2)) 0 3 ! h = [(1 / 2) ^ h]" by blast
  from this [rule_format, of 2]
  have v: "impulse_response (ar1 (1 / 2)) 0 3 ! 2 = [1 / 4]" by (simp add: power2_eq_square)
  from len i0 i2 st v show ?thesis by simp
qed

end
